theory Spec2Isabelle
  imports Main "HOL-Library.AList" "HOL-Library.Multiset"
begin

section \<open>Documents\<close>

text \<open>
  The rule engine of package \<open>resolver\<close> works on values of Go type \<open>interface{}\<close> as
  \<open>encoding/json\<close> produces them, and on \<open>map[string]interface{}\<close> documents.

  A Go map is modelled as an association list. Its order is the order in which a
  \<open>range\<close> loop visits the entries on the run at hand: Go leaves that order unspecified,
  so a statement about every run is a statement about every list. Lookup is \<open>map_of\<close>,
  a store \<open>m[k] = v\<close> is \<open>AList.update k v m\<close>.

  A value of a map type may be the nil map. \<open>doc option\<close> is a value of type
  \<open>map[string]interface{}\<close>, with \<open>None\<close> for nil. Inside an \<open>interface{}\<close> the nil map is
  \<open>JNilMap\<close> (a typed nil), which differs from the untyped \<open>JNull\<close> that JSON \<open>null\<close>
  decodes to. Numbers are opaque to the engine and kept as integers.
\<close>

datatype jv =
    JNull
  | JBool bool
  | JNum int
  | JStr string
  | JArr "jv list"
  | JObj "(string \<times> jv) list"
  | JNilMap

type_synonym doc = "(string \<times> jv) list"

text \<open>Storing a map in an \<open>interface{}\<close>.\<close>

definition box :: "doc option \<Rightarrow> jv" where
  "box d = (case d of None \<Rightarrow> JNilMap | Some m \<Rightarrow> JObj m)"

text \<open>
  The type assertion \<open>v.(map[string]interface{})\<close>: \<open>None\<close> when it fails, otherwise the
  entries of the map (a nil map has none).
\<close>

fun asMap :: "jv \<Rightarrow> doc option" where
  "asMap (JObj m) = Some m"
| "asMap JNilMap = Some []"
| "asMap _ = None"

text \<open>\<open>strings.HasPrefix\<close>.\<close>

definition HasPrefix :: "string \<Rightarrow> string \<Rightarrow> bool" where
  "HasPrefix s p = (take (length p) s = p)"

text \<open>
  \<open>strings.ToLower\<close> belongs to Go's standard library and follows the Unicode case tables
  (it maps U+0130 to \<open>i\<close>, for one). The compiler below takes it as the parameter
  \<open>toLower\<close>, and what is proved of the compiler holds for whatever function that is.

  \<open>asciiToLower\<close> is \<open>strings.ToLower\<close> on strings of ASCII bytes, where Go lowers \<open>A\<close> to
  \<open>Z\<close> and keeps every other byte. The scenarios, whose subject keys are ASCII, are compiled
  with it.
\<close>

definition toLowerChar :: "char \<Rightarrow> char" where
  "toLowerChar c =
     (case map_of (zip ''ABCDEFGHIJKLMNOPQRSTUVWXYZ'' ''abcdefghijklmnopqrstuvwxyz'') c of
        None \<Rightarrow> c | Some l \<Rightarrow> l)"

definition asciiToLower :: "string \<Rightarrow> string" where
  "asciiToLower s = map toLowerChar s"

section \<open>Errors\<close>

text \<open>
  Every \<open>errors.New\<close> and \<open>errors.Errorf\<close> of the source is a constructor; the run-time
  panics (nil pointer dereference, failed type assertion) are values too.
\<close>

datatype error =
    PanicNilDeref
  | PanicTypeAssert
  | EDenyState string
  | EDenyGroup string
  | EDenyUser
  | EDenyDefault
  | EUpdateMixed
  | EOperatorShape
  | EUnknownOperator string
  | EEmptyGroupName
  | EUnknownGroup string
  | EEmptyUserName
  | EInvalidUserState string
  | EInvalidEnforceType string
  | EUnmarshal
  | EValidate

section \<open>Rule configuration and compiled rules\<close>

text \<open>
  \<open>RuleQueryType\<close> is a \<open>uint16\<close> of which the source names five values; they are the keys
  of \<open>TableRules.rules\<close>.
\<close>

datatype RuleQueryType =
    RuleQueryInsert
  | RuleQueryUpdate
  | RuleQueryFind
  | RuleQueryRemove
  | RuleQueryCount

definition UserStateAnonymous :: string where "UserStateAnonymous = ''anonymous''"
definition UserStateLoggedIn :: string where "UserStateLoggedIn = ''logged_in''"
definition UserStateWaitSignUpConfirm :: string where "UserStateWaitSignUpConfirm = ''sign_up''"
definition UserStatePreRegistered :: string where "UserStatePreRegistered = ''pre_register''"
definition UserStateDisabled :: string where "UserStateDisabled = ''disabled''"

text \<open>\<open>queryEnforces\<close>: subject key to fragment; a JSON \<open>null\<close> fragment is the nil map.\<close>

type_synonym queryEnforces = "(string \<times> doc option) list"

record updateQueryEnforces =
  Filter :: queryEnforces
  Update :: queryEnforces

record tableEnforces =
  Find :: queryEnforces
  Count :: queryEnforces
  Remove :: queryEnforces
  Update :: updateQueryEnforces
  Insert :: queryEnforces

record RulesConfig =
  Groups :: "(string \<times> string list) list"
  Rules :: "(string \<times> tableEnforces) list"

record QueryRules =
  groupRules :: "(string \<times> doc option) list"
  userRules :: "(string \<times> doc option) list"
  userStateRules :: "(string \<times> doc option) list"
  defaultRules :: "doc option"

text \<open>The pointers \<open>*QueryRules\<close> and \<open>*TableRules\<close> are options, \<open>None\<close> for nil.\<close>

record TableRules =
  rules :: "(RuleQueryType \<times> QueryRules option) list"
  updateRules :: "QueryRules option"

record Rules =
  groups :: "string list"
  userGroups :: "(string \<times> string list) list"
  rules :: "(string \<times> TableRules option) list"

record updateMergeItem =
  op :: string
  argument :: jv

section \<open>Mergers\<close>

subsection \<open>mergeInsert\<close>

fun insertEntries :: "doc \<Rightarrow> doc \<Rightarrow> doc" where
  "insertEntries [] out = out"
| "insertEntries ((k, v) # d) out = insertEntries d (AList.update k v out)"

fun insertDocs :: "doc option list \<Rightarrow> doc \<Rightarrow> doc" where
  "insertDocs [] out = out"
| "insertDocs (None # q) out = insertDocs q out"
| "insertDocs (Some d # q) out = insertDocs q (insertEntries d out)"

definition mergeInsert :: "doc option list \<Rightarrow> doc option" where
  "mergeInsert q = (if length q = 0 then None else Some (insertDocs q []))"

subsection \<open>mergeUpdate\<close>

type_synonym mergeTable = "(string \<times> updateMergeItem) list"

definition isUpdateOp :: "string \<Rightarrow> bool" where
  "isUpdateOp k \<longleftrightarrow>
     k = ''$currentDate'' \<or> k = ''$inc'' \<or> k = ''$max'' \<or> k = ''$min'' \<or> k = ''$mul''
     \<or> k = ''$set''"

text \<open>The loop \<open>for field, argument := range ov\<close>.\<close>

fun setFields :: "string \<Rightarrow> doc \<Rightarrow> mergeTable \<Rightarrow> mergeTable" where
  "setFields k [] result = result"
| "setFields k ((field, arg) # ov) result =
     setFields k ov (AList.update field \<lparr>op = k, argument = arg\<rparr> result)"

text \<open>
  The head of the body of \<open>for k, v := range d\<close>: the key is classified, the flags
  \<open>useDollarOp\<close> and \<open>useNormalSet\<close> are updated, and a fragment that has shown both
  kinds of key is refused.
\<close>

definition classifyKey :: "string \<Rightarrow> bool \<Rightarrow> bool \<Rightarrow> error + (bool \<times> bool)" where
  "classifyKey k useDollarOp useNormalSet =
     (if HasPrefix k ''$'' then
        (if useNormalSet then Inl EUpdateMixed else Inr (True, useNormalSet))
      else
        (if useDollarOp then Inl EUpdateMixed else Inr (useDollarOp, True)))"

text \<open>The loop \<open>for k, v := range d\<close> over one fragment.\<close>

fun mergeEntries :: "doc \<Rightarrow> bool \<Rightarrow> bool \<Rightarrow> mergeTable \<Rightarrow> error + mergeTable" where
  "mergeEntries [] useDollarOp useNormalSet result = Inr result"
| "mergeEntries ((k, v) # d) useDollarOp useNormalSet result =
     (case classifyKey k useDollarOp useNormalSet of
        Inl e \<Rightarrow> Inl e
      | Inr (useDollarOp', useNormalSet') \<Rightarrow>
          if useDollarOp' then
            (if isUpdateOp k then
               (case asMap v of
                  None \<Rightarrow> Inl EOperatorShape
                | Some ov \<Rightarrow>
                    mergeEntries d useDollarOp' useNormalSet' (setFields k ov result))
             else if k = ''$comment'' then mergeEntries d useDollarOp' useNormalSet' result
             else if HasPrefix k ''$'' then Inl (EUnknownOperator k)
             else mergeEntries d useDollarOp' useNormalSet' result)
          else if useNormalSet' then
            mergeEntries d useDollarOp' useNormalSet'
              (AList.update k \<lparr>op = ''$set'', argument = v\<rparr> result)
          else mergeEntries d useDollarOp' useNormalSet' result)"

text \<open>The loop \<open>for _, d := range q\<close>; ranging over a nil map visits nothing.\<close>

fun mergeDocs :: "doc option list \<Rightarrow> mergeTable \<Rightarrow> error + mergeTable" where
  "mergeDocs [] result = Inr result"
| "mergeDocs (None # q) result = mergeDocs q result"
| "mergeDocs (Some d # q) result =
     (case mergeEntries d False False result of
        Inl e \<Rightarrow> Inl e
      | Inr result' \<Rightarrow> mergeDocs q result')"

text \<open>
  The final loop \<open>for field, item := range result\<close>, which files every entry under its
  operator. \<open>opArgs.(map[string]interface{})\<close> panics on a value that is not a map.
\<close>

fun toQueryObject :: "mergeTable \<Rightarrow> doc \<Rightarrow> error + doc" where
  "toQueryObject [] out = Inr out"
| "toQueryObject ((field, item) # result) out =
     (let out' = (case map_of out (op item) of
                    None \<Rightarrow> AList.update (op item) (JObj []) out
                  | Some opArgs \<Rightarrow> out)
      in case map_of out' (op item) of
           Some (JObj ov) \<Rightarrow>
             toQueryObject result
               (AList.update (op item) (JObj (AList.update field (argument item) ov)) out')
         | _ \<Rightarrow> Inl PanicTypeAssert)"

definition mergeUpdate :: "doc option list \<Rightarrow> error + doc option" where
  "mergeUpdate q =
     (if length q = 0 then Inr None
      else case mergeDocs q [] of
             Inl e \<Rightarrow> Inl e
           | Inr result \<Rightarrow>
               (case toQueryObject result [] of
                  Inl e \<Rightarrow> Inl e
                | Inr out \<Rightarrow> Inr (Some out)))"

section \<open>Rule selector\<close>

definition findUserRules :: "Rules \<Rightarrow> string \<Rightarrow> RuleQueryType \<Rightarrow> QueryRules option" where
  "findUserRules r table qt =
     (case map_of (Rules.rules r) table of
        None \<Rightarrow> None
      | Some None \<Rightarrow> None
      | Some (Some tableRules) \<Rightarrow>
          (case map_of (TableRules.rules tableRules) qt of
             None \<Rightarrow> None
           | Some None \<Rightarrow> None
           | Some (Some queryRules) \<Rightarrow> Some queryRules))"

text \<open>The value of the index expression \<open>m[k]\<close>: the zero value (nil) for a missing key.\<close>

definition index :: "('k \<times> 'v option) list \<Rightarrow> 'k \<Rightarrow> 'v option" where
  "index m k = (case map_of m k of None \<Rightarrow> None | Some v \<Rightarrow> v)"

definition indexList :: "('k \<times> 'v list) list \<Rightarrow> 'k \<Rightarrow> 'v list" where
  "indexList m k = (case map_of m k of None \<Rightarrow> [] | Some v \<Rightarrow> v)"

text \<open>The loop \<open>for _, g := range groups\<close> of \<open>findRulesToApply\<close>.\<close>

fun groupLoop :: "QueryRules \<Rightarrow> string list \<Rightarrow> doc option list \<Rightarrow> error + doc option list"
  where
  "groupLoop queryRules [] resultRules = Inr resultRules"
| "groupLoop queryRules (g # gs) resultRules =
     (case map_of (groupRules queryRules) g of
        None \<Rightarrow> groupLoop queryRules gs resultRules
      | Some None \<Rightarrow> Inl (EDenyGroup g)
      | Some (Some rule) \<Rightarrow>
          groupLoop queryRules gs (resultRules @ [index (groupRules queryRules) g]))"

text \<open>
  \<open>findRulesToApply\<close>. The slice \<open>resultRules\<close> is a list; the nil slice is \<open>[]\<close>. The state
  rule and the user rule are appended whether or not their key was found: a missing key
  appends the nil map.
\<close>

definition findRulesToApply ::
  "Rules \<Rightarrow> QueryRules option \<Rightarrow> string \<Rightarrow> string \<Rightarrow> error + doc option list" where
  "findRulesToApply r queryRules uid userState =
     (case queryRules of
        None \<Rightarrow> Inl PanicNilDeref
      | Some qr \<Rightarrow>
          (case map_of (userStateRules qr) userState of
             Some None \<Rightarrow> Inl (EDenyState userState)
           | _ \<Rightarrow>
               (let stateRule = index (userStateRules qr) userState;
                    resultRules0 = [] @ [stateRule];
                    groups = indexList (userGroups r) uid
                in case groupLoop qr groups resultRules0 of
                     Inl e \<Rightarrow> Inl e
                   | Inr resultRules1 \<Rightarrow>
                       (case map_of (userRules qr) uid of
                          Some None \<Rightarrow> Inl EDenyUser
                        | _ \<Rightarrow>
                            (let rule = index (userRules qr) uid;
                                 resultRules2 = resultRules1 @ [rule]
                             in if length resultRules2 = 0 then
                                  (if defaultRules qr = None then Inl EDenyDefault
                                   else Inr (resultRules2 @ [defaultRules qr]))
                                else Inr resultRules2)))))"

section \<open>Enforcer\<close>

text \<open>
  \<open>InjectMagicVars\<close> is defined in a file of package \<open>resolver\<close> that is not at hand. The
  three operations take it as the parameter \<open>inject\<close>, from a fragment and the variable bag
  to the fragment with the variables filled in.
\<close>

type_synonym injector = "doc option \<Rightarrow> doc option \<Rightarrow> doc option"

definition EnforceRulesOnFilter ::
  "injector \<Rightarrow> Rules \<Rightarrow> doc option \<Rightarrow> string \<Rightarrow> string \<Rightarrow> string \<Rightarrow> doc option
     \<Rightarrow> RuleQueryType \<Rightarrow> error + doc option" where
  "EnforceRulesOnFilter inject r f table uid userState vars qt =
     (case findRulesToApply r (findUserRules r table RuleQueryUpdate) uid userState of
        Inl e \<Rightarrow> Inl e
      | Inr resultRules \<Rightarrow>
          if resultRules = [] then Inr f
          else
            (let resultAndSubExpr = map (\<lambda>rule. box (inject rule vars)) resultRules;
                 resultAndSubExpr' = resultAndSubExpr @ [box f]
             in Inr (Some [(''$and'', JArr resultAndSubExpr')])))"

definition EnforceRulesOnUpdate ::
  "injector \<Rightarrow> Rules \<Rightarrow> doc option \<Rightarrow> string \<Rightarrow> string \<Rightarrow> string \<Rightarrow> doc option
     \<Rightarrow> error + doc option" where
  "EnforceRulesOnUpdate inject r d table uid userState vars =
     (case map_of (Rules.rules r) table of
        None \<Rightarrow> Inr d
      | Some None \<Rightarrow> Inr d
      | Some (Some tableRules) \<Rightarrow>
          (case updateRules tableRules of
             None \<Rightarrow> Inr d
           | Some queryRules \<Rightarrow>
               (case findRulesToApply r (Some queryRules) uid userState of
                  Inl e \<Rightarrow> Inl e
                | Inr resultRules \<Rightarrow>
                    (case mergeUpdate resultRules of
                       Inl e \<Rightarrow> Inl e
                     | Inr update \<Rightarrow> mergeUpdate [d, inject update vars]))))"

definition EnforceRulesOnInsert ::
  "injector \<Rightarrow> Rules \<Rightarrow> doc option \<Rightarrow> string \<Rightarrow> string \<Rightarrow> string \<Rightarrow> doc option
     \<Rightarrow> error + doc option" where
  "EnforceRulesOnInsert inject r d table uid userState vars =
     (case findRulesToApply r (findUserRules r table RuleQueryInsert) uid userState of
        Inl e \<Rightarrow> Inl e
      | Inr resultRules \<Rightarrow>
          if resultRules = [] then Inr d
          else Inr (mergeInsert [d, inject (mergeInsert resultRules) vars]))"

section \<open>Rule compiler\<close>

text \<open>The body of the loop of \<open>compileQueryEnforces\<close> for one subject key.\<close>

definition compileSubject ::
  "(string \<Rightarrow> string) \<Rightarrow> RulesConfig \<Rightarrow> string \<Rightarrow> doc option \<Rightarrow> QueryRules
     \<Rightarrow> error + QueryRules" where
  "compileSubject toLower cfg enforceSubject enforceObject queryRules =
     (if HasPrefix enforceSubject ''g:'' then
        (let groupName = drop 2 enforceSubject
         in if groupName = [] then Inl EEmptyGroupName
            else if map_of (Groups cfg) groupName = None then Inl (EUnknownGroup groupName)
            else Inr (queryRules\<lparr>groupRules :=
                        AList.update groupName enforceObject (groupRules queryRules)\<rparr>))
      else if HasPrefix enforceSubject ''u:'' then
        (let userName = drop 2 enforceSubject
         in if userName = [] then Inl EEmptyUserName
            else Inr (queryRules\<lparr>userRules :=
                        AList.update userName enforceObject (userRules queryRules)\<rparr>))
      else if HasPrefix enforceSubject ''s:'' then
        (let userState = toLower (drop 2 enforceSubject)
         in if userState = UserStateAnonymous \<or> userState = UserStateLoggedIn
               \<or> userState = UserStateWaitSignUpConfirm \<or> userState = UserStatePreRegistered
               \<or> userState = UserStateDisabled
            then Inr (queryRules\<lparr>userStateRules :=
                        AList.update userState enforceObject (userStateRules queryRules)\<rparr>)
            else Inl (EInvalidUserState userState))
      else if enforceSubject = ''default'' then
        Inr (queryRules\<lparr>defaultRules := enforceObject\<rparr>)
      else Inl (EInvalidEnforceType enforceSubject))"

fun compileSubjects ::
  "(string \<Rightarrow> string) \<Rightarrow> RulesConfig \<Rightarrow> queryEnforces \<Rightarrow> QueryRules \<Rightarrow> error + QueryRules"
  where
  "compileSubjects toLower cfg [] queryRules = Inr queryRules"
| "compileSubjects toLower cfg ((enforceSubject, enforceObject) # enforces) queryRules =
     (case compileSubject toLower cfg enforceSubject enforceObject queryRules of
        Inl e \<Rightarrow> Inl e
      | Inr queryRules' \<Rightarrow> compileSubjects toLower cfg enforces queryRules')"

text \<open>\<open>compileQueryEnforces\<close> starts from four empty maps made with \<open>make\<close>, none of them nil.\<close>

definition compileQueryEnforces ::
  "(string \<Rightarrow> string) \<Rightarrow> RulesConfig \<Rightarrow> queryEnforces \<Rightarrow> error + QueryRules" where
  "compileQueryEnforces toLower cfg enforces =
     compileSubjects toLower cfg enforces
       \<lparr>groupRules = [], userRules = [], userStateRules = [], defaultRules = Some []\<rparr>"

text \<open>One of the three loops of \<open>validateUpdateRules\<close>: a trial merge of every fragment.\<close>

fun validateFragments :: "(string \<times> doc option) list \<Rightarrow> error option" where
  "validateFragments [] = None"
| "validateFragments ((subject, fragment) # rest) =
     (case mergeUpdate [fragment] of
        Inl e \<Rightarrow> Some e
      | Inr out \<Rightarrow> validateFragments rest)"

definition validateUpdateRules :: "QueryRules option \<Rightarrow> error option" where
  "validateUpdateRules queryRules =
     (case queryRules of
        None \<Rightarrow> None
      | Some qr \<Rightarrow>
          (case validateFragments (userStateRules qr) of
             Some e \<Rightarrow> Some e
           | None \<Rightarrow>
               (case validateFragments (groupRules qr) of
                  Some e \<Rightarrow> Some e
                | None \<Rightarrow>
                    (case validateFragments (userRules qr) of
                       Some e \<Rightarrow> Some e
                     | None \<Rightarrow>
                         (case mergeUpdate [defaultRules qr] of
                            Inl e \<Rightarrow> Some e
                          | Inr out \<Rightarrow> None)))))"

text \<open>The two nested loops over \<open>cfg.Groups\<close> that fill \<open>groups\<close> and \<open>userGroups\<close>.\<close>

fun addUsers :: "string \<Rightarrow> string list \<Rightarrow> Rules \<Rightarrow> Rules" where
  "addUsers groupName [] r = r"
| "addUsers groupName (userName # userNames) r =
     addUsers groupName userNames
       (r\<lparr>groups := groups r @ [groupName],
          userGroups :=
            AList.update userName (indexList (userGroups r) userName @ [groupName])
              (userGroups r)\<rparr>)"

fun addGroups :: "(string \<times> string list) list \<Rightarrow> Rules \<Rightarrow> Rules" where
  "addGroups [] r = r"
| "addGroups ((groupName, userNames) # gs) r = addGroups gs (addUsers groupName userNames r)"

text \<open>The body of the loop over \<open>cfg.Rules\<close> for one table.\<close>

definition compileTable ::
  "(string \<Rightarrow> string) \<Rightarrow> RulesConfig \<Rightarrow> tableEnforces \<Rightarrow> error + TableRules" where
  "compileTable toLower cfg te =
     (case compileQueryEnforces toLower cfg (Find te) of Inl e \<Rightarrow> Inl e | Inr qFind \<Rightarrow>
      case compileQueryEnforces toLower cfg (Count te) of Inl e \<Rightarrow> Inl e | Inr qCount \<Rightarrow>
      case compileQueryEnforces toLower cfg (Remove te) of Inl e \<Rightarrow> Inl e | Inr qRemove \<Rightarrow>
      case compileQueryEnforces toLower cfg (Insert te) of Inl e \<Rightarrow> Inl e | Inr qInsert \<Rightarrow>
      case compileQueryEnforces toLower cfg (Filter (tableEnforces.Update te)) of
        Inl e \<Rightarrow> Inl e | Inr qUpdate \<Rightarrow>
      case compileQueryEnforces toLower cfg (updateQueryEnforces.Update (tableEnforces.Update te)) of
        Inl e \<Rightarrow> Inl e | Inr qUpdateRules \<Rightarrow>
      case validateUpdateRules (Some qUpdateRules) of
        Some e \<Rightarrow> Inl e
      | None \<Rightarrow>
          Inr \<lparr>TableRules.rules =
                 AList.update RuleQueryUpdate (Some qUpdate)
                   (AList.update RuleQueryInsert (Some qInsert)
                      (AList.update RuleQueryRemove (Some qRemove)
                         (AList.update RuleQueryCount (Some qCount)
                            (AList.update RuleQueryFind (Some qFind) [])))),
               updateRules = Some qUpdateRules\<rparr>)"

fun compileTables ::
  "(string \<Rightarrow> string) \<Rightarrow> RulesConfig \<Rightarrow> (string \<times> tableEnforces) list \<Rightarrow> Rules
     \<Rightarrow> error + Rules"
  where
  "compileTables toLower cfg [] r = Inr r"
| "compileTables toLower cfg ((tableName, te) # ts) r =
     (case compileTable toLower cfg te of
        Inl e \<Rightarrow> Inl e
      | Inr tableRules \<Rightarrow>
          compileTables toLower cfg ts
            (r\<lparr>Rules.rules := AList.update tableName (Some tableRules) (Rules.rules r)\<rparr>))"

text \<open>
  \<open>CompileRawRules\<close>. Decoding and struct validation belong to \<open>encoding/json\<close> and to the
  \<open>validator\<close> package: \<open>unmarshalled\<close> is what \<open>json.Unmarshal\<close> left (an error, or the
  pointer \<open>cfg\<close>, nil for the JSON text \<open>null\<close>), \<open>validateStruct\<close> is
  \<open>validator.New().Struct\<close>. The result is the pair \<open>(r, err)\<close> with the \<open>r\<close> of a failed
  call left out.
\<close>

definition CompileRawRules ::
  "(string \<Rightarrow> string) \<Rightarrow> (RulesConfig \<Rightarrow> error option) \<Rightarrow> error + RulesConfig option
     \<Rightarrow> error + Rules option" where
  "CompileRawRules toLower validateStruct unmarshalled =
     (case unmarshalled of
        Inl e \<Rightarrow> Inl e
      | Inr None \<Rightarrow> Inr None
      | Inr (Some cfg) \<Rightarrow>
          (case validateStruct cfg of
             Some e \<Rightarrow> Inl e
           | None \<Rightarrow>
               (let r = \<lparr>groups = [], userGroups = [], Rules.rules = []\<rparr>;
                    r' = addGroups (Groups cfg) r
                in case compileTables toLower cfg (RulesConfig.Rules cfg) r' of
                     Inl e \<Rightarrow> Inl e
                   | Inr r'' \<Rightarrow> Inr (Some r''))))"

section \<open>The variable injector\<close>

text \<open>
  Modelled from the spec: \<open>InjectMagicVars\<close>, the variable injector of package \<open>resolver\<close>,
  whose file is not at hand. It walks a nested document, maps and sequences alike, and
  replaces a string leaf \<open>@@name\<close> by the value of \<open>name\<close> in the variable bag; a token the
  bag does not resolve is passed through. A nil document has nothing to walk and stays
  nil. It serves as the injector where a statement needs a concrete one.
\<close>

fun injectValue :: "doc \<Rightarrow> jv \<Rightarrow> jv" where
  "injectValue vars (JStr s) =
     (if HasPrefix s ''@@'' then
        (case map_of vars (drop 2 s) of None \<Rightarrow> JStr s | Some v \<Rightarrow> v)
      else JStr s)"
| "injectValue vars (JArr xs) = JArr (map (injectValue vars) xs)"
| "injectValue vars (JObj m) = JObj (map (map_prod id (injectValue vars)) m)"
| "injectValue vars v = v"

definition InjectMagicVars :: injector where
  "InjectMagicVars r vars =
     (case r of
        None \<Rightarrow> None
      | Some m \<Rightarrow>
          Some (map (map_prod id (injectValue (case vars of None \<Rightarrow> [] | Some vs \<Rightarrow> vs))) m))"

section \<open>Notions of the specification\<close>

text \<open>
  The field-level entries of one top-level entry of an update fragment, in the words of
  the specification: a recognised operator with an object argument carries one entry per
  field of the object, a bare field is an entry under \<open>$set\<close>, and \<open>$comment\<close> carries none.
\<close>

definition entryItems :: "string \<times> jv \<Rightarrow> mergeTable" where
  "entryItems kv =
     (if HasPrefix (fst kv) ''$'' then
        (if isUpdateOp (fst kv) then
           (case asMap (snd kv) of
              None \<Rightarrow> []
            | Some ov \<Rightarrow> map (\<lambda>fa. (fst fa, \<lparr>op = fst kv, argument = snd fa\<rparr>)) ov)
         else [])
      else [(fst kv, \<lparr>op = ''$set'', argument = snd kv\<rparr>)])"

text \<open>The entries of a fragment, in the order in which the fragment is ranged over.\<close>

definition fragmentEntries :: "doc option \<Rightarrow> mergeTable" where
  "fragmentEntries d = (case d of None \<Rightarrow> [] | Some m \<Rightarrow> concat (map entryItems m))"

text \<open>
  A well-formed fragment is in dollar form (every key a recognised operator with an object
  argument, or \<open>$comment\<close>) or in bare form (no key begins with \<open>$\<close>).
\<close>

definition wellFormed :: "doc option \<Rightarrow> bool" where
  "wellFormed d =
     (case d of
        None \<Rightarrow> True
      | Some m \<Rightarrow>
          (\<forall>kv \<in> set m. HasPrefix (fst kv) ''$'' \<and>
               (isUpdateOp (fst kv) \<and> asMap (snd kv) \<noteq> None \<or> fst kv = ''$comment''))
          \<or> (\<forall>kv \<in> set m. \<not> HasPrefix (fst kv) ''$''))"

text \<open>The argument filed for \<open>field\<close> under operator \<open>k\<close> in an update document.\<close>

definition argOf :: "doc \<Rightarrow> string \<Rightarrow> string \<Rightarrow> jv option" where
  "argOf out k field = (case map_of out k of Some (JObj ov) \<Rightarrow> map_of ov field | _ \<Rightarrow> None)"

text \<open>A fragment that has a \<open>$\<close>-prefixed key and a bare key at its top level.\<close>

definition mixedKeys :: "doc \<Rightarrow> bool" where
  "mixedKeys d \<longleftrightarrow> (\<exists>kv \<in> set d. HasPrefix (fst kv) ''$'') \<and> (\<exists>kv \<in> set d. \<not> HasPrefix (fst kv) ''$'')"

text \<open>An update document under assembly: every operator key holds an object.\<close>

definition allObjects :: "doc \<Rightarrow> bool" where
  "allObjects out \<longleftrightarrow> (\<forall>k v. map_of out k = Some v \<longrightarrow> (\<exists>ov. v = JObj ov))"

text \<open>
  The slot of the compiled \<open>QueryRules\<close> that \<open>compileQueryEnforces\<close> stores a subject key
  in: two keys share a slot when they are equal, or when both are \<open>s:\<close> keys whose state
  names \<open>strings.ToLower\<close> maps to the same name. \<open>storedAt\<close> reads that slot.
\<close>

definition slotOf :: "(string \<Rightarrow> string) \<Rightarrow> string \<Rightarrow> string" where
  "slotOf toLower subject =
     (if HasPrefix subject ''s:'' then ''s:'' @ toLower (drop 2 subject) else subject)"

definition storedAt ::
  "(string \<Rightarrow> string) \<Rightarrow> QueryRules \<Rightarrow> string \<Rightarrow> doc option option" where
  "storedAt toLower queryRules subject =
     (if HasPrefix subject ''g:'' then map_of (groupRules queryRules) (drop 2 subject)
      else if HasPrefix subject ''u:'' then map_of (userRules queryRules) (drop 2 subject)
      else if HasPrefix subject ''s:'' then
        map_of (userStateRules queryRules) (toLower (drop 2 subject))
      else if subject = ''default'' then Some (defaultRules queryRules)
      else None)"

text \<open>
  The groups of a user as the configuration lists them: every group once per occurrence of
  the user among its members, in the order in which the groups are ranged over.
\<close>

definition memberships :: "(string \<times> string list) list \<Rightarrow> string \<Rightarrow> string list" where
  "memberships gs uid = concat (map (\<lambda>g. replicate (count_list (snd g) uid) (fst g)) gs)"

section \<open>Scenarios\<close>

text \<open>A run of the struct validator that accepts the configuration.\<close>

definition acceptConfig :: "RulesConfig \<Rightarrow> error option" where
  "acceptConfig cfg = None"

definition noUpdateEnforces :: updateQueryEnforces where
  "noUpdateEnforces = \<lparr>Filter = [], updateQueryEnforces.Update = []\<rparr>"

definition noQueryRules :: QueryRules where
  "noQueryRules =
     \<lparr>groupRules = [], userRules = [], userStateRules = [], defaultRules = Some []\<rparr>"

text \<open>
  Scenario S1: groups \<open>{"admins":["u1"]}\<close> and
  \<open>rules.table1.find = {"g:admins":{"tenant":"T"}}\<close>, with the Rules object it compiles to.
\<close>

definition configS1 :: RulesConfig where
  "configS1 =
     \<lparr>Groups = [(''admins'', [''u1''])],
      RulesConfig.Rules =
        [(''table1'',
          \<lparr>Find = [(''g:admins'', Some [(''tenant'', JStr ''T'')])], Count = [], Remove = [],
           tableEnforces.Update = noUpdateEnforces, Insert = []\<rparr>)]\<rparr>"

definition rulesS1 :: Rules where
  "rulesS1 =
     \<lparr>groups = [''admins''], userGroups = [(''u1'', [''admins''])],
      Rules.rules =
        [(''table1'',
          Some \<lparr>TableRules.rules =
                  [(RuleQueryFind,
                    Some (noQueryRules\<lparr>groupRules :=
                            [(''admins'', Some [(''tenant'', JStr ''T'')])]\<rparr>)),
                   (RuleQueryCount, Some noQueryRules),
                   (RuleQueryRemove, Some noQueryRules),
                   (RuleQueryInsert, Some noQueryRules),
                   (RuleQueryUpdate, Some noQueryRules)],
                updateRules = Some noQueryRules\<rparr>)]\<rparr>"

text \<open>Query rules with a default fragment only, and with an explicit null default.\<close>

definition defaultOnly :: QueryRules where
  "defaultOnly = noQueryRules\<lparr>defaultRules := Some [(''pub'', JBool True)]\<rparr>"

definition defaultDenied :: QueryRules where
  "defaultDenied = noQueryRules\<lparr>defaultRules := None\<rparr>"

text \<open>Query rules with an allow and a deny at every tier, and the memberships to reach them.\<close>

definition tieredRules :: QueryRules where
  "tieredRules =
     \<lparr>groupRules = [(''staff'', Some [(''dept'', JStr ''D'')]), (''admins'', None)],
      userRules = [(''u3'', None)],
      userStateRules = [(''anonymous'', None), (''logged_in'', Some [(''active'', JBool True)])],
      defaultRules = Some [(''pub'', JBool True)]\<rparr>"

definition tieredMembers :: Rules where
  "tieredMembers =
     \<lparr>groups = [''staff'', ''admins'', ''staff''],
      userGroups = [(''u1'', [''staff'', ''admins'']), (''u3'', [''staff''])],
      Rules.rules =
        [(''table1'',
          Some \<lparr>TableRules.rules = [(RuleQueryUpdate, Some (tieredRules\<lparr>userRules := []\<rparr>))],
                updateRules = Some noQueryRules\<rparr>)]\<rparr>"

text \<open>Scenario S5: the update fragment \<open>{"$set":{"x":1},"y":2}\<close> under \<open>default\<close>.\<close>

definition mixedFragment :: doc where
  "mixedFragment = [(''$set'', JObj [(''x'', JNum 1)]), (''y'', JNum 2)]"

definition tableWithUpdate :: "queryEnforces \<Rightarrow> tableEnforces" where
  "tableWithUpdate enforces =
     \<lparr>Find = [], Count = [], Remove = [],
      tableEnforces.Update = \<lparr>Filter = [], updateQueryEnforces.Update = enforces\<rparr>,
      Insert = []\<rparr>"

definition configS5 :: RulesConfig where
  "configS5 =
     \<lparr>Groups = [],
      RulesConfig.Rules = [(''table1'', tableWithUpdate [(''default'', Some mixedFragment)])]\<rparr>"

text \<open>
  The same mixed fragment under \<open>s:ANONYMOUS\<close>, ranged over before a sound fragment under
  \<open>s:anonymous\<close>, and the Rules object this run compiles to.
\<close>

definition configShadowed :: RulesConfig where
  "configShadowed =
     \<lparr>Groups = [],
      RulesConfig.Rules =
        [(''table1'',
          tableWithUpdate
            [(''s:ANONYMOUS'', Some mixedFragment), (''s:anonymous'', Some [(''x'', JNum 1)])])]\<rparr>"

definition compiledTable :: "QueryRules \<Rightarrow> TableRules" where
  "compiledTable updates =
     \<lparr>TableRules.rules =
        [(RuleQueryFind, Some noQueryRules), (RuleQueryCount, Some noQueryRules),
         (RuleQueryRemove, Some noQueryRules), (RuleQueryInsert, Some noQueryRules),
         (RuleQueryUpdate, Some noQueryRules)],
      updateRules = Some updates\<rparr>"

definition rulesShadowed :: Rules where
  "rulesShadowed =
     \<lparr>groups = [], userGroups = [],
      Rules.rules =
        [(''table1'',
          Some (compiledTable
                  (noQueryRules\<lparr>userStateRules := [(''anonymous'', Some [(''x'', JNum 1)])]\<rparr>)))]\<rparr>"

text \<open>
  One configuration, groups \<open>{"a":["u"],"b":["u"]}\<close>, as two runs range over it, and the
  Rules object of each run.
\<close>

definition configAB :: RulesConfig where
  "configAB = \<lparr>Groups = [(''a'', [''u'']), (''b'', [''u''])], RulesConfig.Rules = []\<rparr>"

definition configBA :: RulesConfig where
  "configBA = \<lparr>Groups = [(''b'', [''u'']), (''a'', [''u''])], RulesConfig.Rules = []\<rparr>"

definition rulesAB :: Rules where
  "rulesAB = \<lparr>groups = [''a'', ''b''], userGroups = [(''u'', [''a'', ''b''])], Rules.rules = []\<rparr>"

definition rulesBA :: Rules where
  "rulesBA = \<lparr>groups = [''b'', ''a''], userGroups = [(''u'', [''b'', ''a''])], Rules.rules = []\<rparr>"

section \<open>Properties of the rule selector\<close>


lemma groupLoop_allow:
  "find (\<lambda>g. map_of (groupRules qr) g = Some None) gs = None \<Longrightarrow>
   groupLoop qr gs acc =
     Inr (acc @ map (index (groupRules qr)) (filter (\<lambda>g. map_of (groupRules qr) g \<noteq> None) gs))"
  by (induction gs arbitrary: acc) (auto split: option.splits if_splits)

lemma groupLoop_length: "groupLoop qr gs acc = Inr rs \<Longrightarrow> length acc \<le> length rs"
  by (induction gs arbitrary: acc) (fastforce split: option.splits if_splits)+

lemma findRulesToApply_nonempty:
  "findRulesToApply r q uid st = Inr rs \<Longrightarrow> 2 \<le> length rs"
  unfolding findRulesToApply_def
  by (auto simp: Let_def split: option.splits sum.splits if_splits dest!: groupLoop_length)



section \<open>Properties of the filter enforcer\<close>

text \<open>
  Claim C8. Whenever \<open>EnforceRulesOnFilter\<close> returns a rewritten filter, the result is the
  single-key document \<open>{"$and": [...]}\<close> whose list holds the injected fragments of the
  selector, in its order, and then the caller's filter \<open>f\<close> itself as the last element.
\<close>

theorem filter_last:
  assumes "EnforceRulesOnFilter inject r f table uid userState vars qt = Inr flt"
  shows "\<exists>rs. findRulesToApply r (findUserRules r table RuleQueryUpdate) uid userState = Inr rs
           \<and> flt = Some [(''$and'', JArr (map (\<lambda>rule. box (inject rule vars)) rs @ [box f]))]"
  using assms findRulesToApply_nonempty[of r "findUserRules r table RuleQueryUpdate" uid userState]
  unfolding EnforceRulesOnFilter_def
  by (auto simp: Let_def split: sum.splits if_splits)

theorem filter_last_witness:
  "EnforceRulesOnFilter InjectMagicVars tieredMembers (Some [(''name'', JStr ''x'')]) ''table1''
     ''u3'' ''logged_in'' (Some []) RuleQueryUpdate
     = Inr (Some [(''$and'',
          JArr [JObj [(''active'', JBool True)], JObj [(''dept'', JStr ''D'')], JNilMap,
                JObj [(''name'', JStr ''x'')]])])
   \<and> (\<exists>rs. findRulesToApply tieredMembers
               (findUserRules tieredMembers ''table1'' RuleQueryUpdate) ''u3'' ''logged_in''
               = Inr rs
          \<and> Some [(''$and'',
                 JArr [JObj [(''active'', JBool True)], JObj [(''dept'', JStr ''D'')], JNilMap,
                       JObj [(''name'', JStr ''x'')]])]
              = Some [(''$and'',
                  JArr (map (\<lambda>rule. box (InjectMagicVars rule (Some []))) rs
                        @ [box (Some [(''name'', JStr ''x'')])]))])"
proof -
  have run: "EnforceRulesOnFilter InjectMagicVars tieredMembers (Some [(''name'', JStr ''x'')])
      ''table1'' ''u3'' ''logged_in'' (Some []) RuleQueryUpdate
      = Inr (Some [(''$and'',
          JArr [JObj [(''active'', JBool True)], JObj [(''dept'', JStr ''D'')], JNilMap,
                JObj [(''name'', JStr ''x'')]])])"
    by (simp add: EnforceRulesOnFilter_def findUserRules_def findRulesToApply_def
          tieredMembers_def tieredRules_def noQueryRules_def index_def indexList_def
          InjectMagicVars_def box_def HasPrefix_def)
  from run filter_last[OF run] show ?thesis
    by blast
qed

section \<open>Properties of the update merger\<close>

lemma isUpdateOp_dollar: "isUpdateOp k \<Longrightarrow> HasPrefix k ''$''"
  by (auto simp: isUpdateOp_def HasPrefix_def)

lemma map_of_setFields:
  "map_of (setFields k ov t) =
     map_of t ++ map_of (rev (map (\<lambda>fa. (fst fa, \<lparr>op = k, argument = snd fa\<rparr>)) ov))"
  by (induction ov arbitrary: t) (auto simp: update_conv')

lemma map_of_mergeEntries:
  "mergeEntries d b1 b2 t = Inr t' \<Longrightarrow>
   map_of t' = map_of t ++ map_of (rev (concat (map entryItems d)))"
proof (induction d arbitrary: b1 b2 t)
  case Nil
  then show ?case by simp
next
  case (Cons kv d)
  obtain k v where kv: "kv = (k, v)" by (cases kv)
  show ?case
  proof (cases "HasPrefix k ''$''")
    case True
    from Cons.prems kv True obtain t1 where
      1: "mergeEntries d True b2 t1 = Inr t'" and
      2: "map_of t1 = map_of t ++ map_of (rev (entryItems kv))"
      by (auto simp: classifyKey_def entryItems_def map_of_setFields
               split: if_splits option.splits)
    from Cons.IH[OF 1] 2 show ?thesis by simp
  next
    case False
    from Cons.prems kv False isUpdateOp_dollar[of k] have
      1: "mergeEntries d False True (AList.update k \<lparr>op = ''$set'', argument = v\<rparr> t) = Inr t'"
      by (auto simp: classifyKey_def split: if_splits)
    have 2: "map_of (AList.update k \<lparr>op = ''$set'', argument = v\<rparr> t)
               = map_of t ++ map_of (rev (entryItems kv))"
      using kv False by (simp add: entryItems_def update_conv')
    from Cons.IH[OF 1] 2 show ?thesis by simp
  qed
qed

lemma map_of_mergeDocs:
  "mergeDocs q t = Inr t' \<Longrightarrow>
   map_of t' = map_of t ++ map_of (rev (concat (map fragmentEntries q)))"
proof (induction q arbitrary: t)
  case Nil
  then show ?case by simp
next
  case (Cons d q)
  show ?case
  proof (cases d)
    case None
    with Cons show ?thesis by (simp add: fragmentEntries_def)
  next
    case (Some m)
    with Cons.prems obtain t1 where 1: "mergeEntries m False False t = Inr t1"
      and 2: "mergeDocs q t1 = Inr t'"
      by (auto split: sum.splits)
    from map_of_mergeEntries[OF 1] Cons.IH[OF 2] Some show ?thesis
      by (simp add: fragmentEntries_def)
  qed
qed

lemma distinct_setFields: "distinct (map fst t) \<Longrightarrow> distinct (map fst (setFields k ov t))"
  by (induction ov arbitrary: t) (auto simp: distinct_update)

lemma distinct_mergeEntries:
  "mergeEntries d b1 b2 t = Inr t' \<Longrightarrow> distinct (map fst t) \<Longrightarrow> distinct (map fst t')"
proof (induction d arbitrary: b1 b2 t)
  case Nil
  then show ?case by simp
next
  case (Cons kv d)
  obtain k v where kv: "kv = (k, v)" by (cases kv)
  from Cons.prems kv show ?case
    by (auto simp: classifyKey_def distinct_setFields distinct_update dest!: Cons.IH
             split: if_splits option.splits)
qed

lemma distinct_mergeDocs:
  "mergeDocs q t = Inr t' \<Longrightarrow> distinct (map fst t) \<Longrightarrow> distinct (map fst t')"
proof (induction q arbitrary: t)
  case Nil
  then show ?case by simp
next
  case (Cons d q)
  then show ?case
    by (cases d) (auto split: sum.splits dest: distinct_mergeEntries)
qed

lemma toQueryObject_total:
  "allObjects out \<Longrightarrow> \<exists>out'. toQueryObject t out = Inr out' \<and> allObjects out'"
proof (induction t arbitrary: out)
  case Nil
  then show ?case by simp
next
  case (Cons fi t)
  obtain f i where fi: "fi = (f, i)" by (cases fi)
  show ?case
  proof (cases "map_of out (op i)")
    case None
    have "allObjects (AList.update (op i) (JObj (AList.update f (argument i) [])) (AList.update (op i) (JObj []) out))"
      using Cons.prems by (auto simp: allObjects_def update_conv')
    from Cons.IH[OF this] None fi show ?thesis
      by (simp add: update_conv')
  next
    case (Some v)
    with Cons.prems obtain ov where v: "v = JObj ov" by (auto simp: allObjects_def)
    have "allObjects (AList.update (op i) (JObj (AList.update f (argument i) ov)) out)"
      using Cons.prems by (auto simp: allObjects_def update_conv')
    from Cons.IH[OF this] Some v fi show ?thesis
      by simp
  qed
qed

lemma argOf_toQueryObject:
  "toQueryObject t out = Inr out' \<Longrightarrow> distinct (map fst t) \<Longrightarrow>
   argOf out' k x =
     (case map_of t x of
        None \<Rightarrow> argOf out k x
      | Some i \<Rightarrow> if op i = k then Some (argument i) else argOf out k x)"
proof (induction t arbitrary: out)
  case Nil
  then show ?case by simp
next
  case (Cons fi t)
  obtain f i where fi: "fi = (f, i)" by (cases fi)
  from Cons.prems fi have notin: "map_of t f = None"
    by (simp add: map_of_eq_None_iff)
  show ?case
  proof (cases "map_of out (op i)")
    case None
    let ?o = "AList.update (op i) (JObj (AList.update f (argument i) [])) (AList.update (op i) (JObj []) out)"
    from Cons.prems None fi have "toQueryObject t ?o = Inr out'"
      by (simp add: update_conv')
    from Cons.IH[OF this] Cons.prems have
      "argOf out' k x = (case map_of t x of None \<Rightarrow> argOf ?o k x
         | Some i \<Rightarrow> if op i = k then Some (argument i) else argOf ?o k x)"
      by simp
    with None fi notin show ?thesis
      by (auto simp: argOf_def update_conv' split: option.splits)
  next
    case (Some v)
    show ?thesis
    proof (cases v)
      case (JObj ov)
      let ?o = "AList.update (op i) (JObj (AList.update f (argument i) ov)) out"
      from Cons.prems Some JObj fi have "toQueryObject t ?o = Inr out'"
        by simp
      from Cons.IH[OF this] Cons.prems have
        "argOf out' k x = (case map_of t x of None \<Rightarrow> argOf ?o k x
           | Some i \<Rightarrow> if op i = k then Some (argument i) else argOf ?o k x)"
        by simp
      with Some JObj fi notin show ?thesis
        by (auto simp: argOf_def update_conv' split: option.splits)
    qed (use Cons.prems Some fi in auto)
  qed
qed

lemma comment_not_op: "\<not> isUpdateOp ''$comment''"
  by (simp add: isUpdateOp_def)

lemma mergeEntries_dollar_ok:
  "\<forall>kv \<in> set d. HasPrefix (fst kv) ''$'' \<and>
       (isUpdateOp (fst kv) \<and> asMap (snd kv) \<noteq> None \<or> fst kv = ''$comment'') \<Longrightarrow>
   \<exists>t'. mergeEntries d b False t = Inr t'"
proof (induction d arbitrary: b t)
  case Nil
  then show ?case by simp
next
  case (Cons kv d)
  obtain k v where kv: "kv = (k, v)" by (cases kv)
  from Cons.prems have rest: "\<forall>kv \<in> set d. HasPrefix (fst kv) ''$'' \<and>
       (isUpdateOp (fst kv) \<and> asMap (snd kv) \<noteq> None \<or> fst kv = ''$comment'')"
    by simp
  from Cons.prems kv have k: "HasPrefix k ''$''"
    and kk: "isUpdateOp k \<and> asMap v \<noteq> None \<or> k = ''$comment''"
    by auto
  from k kk kv Cons.IH[OF rest, of True] show ?case
    by (auto simp: classifyKey_def comment_not_op)
qed

lemma mergeEntries_bare_ok:
  "\<forall>kv \<in> set d. \<not> HasPrefix (fst kv) ''$'' \<Longrightarrow> \<exists>t'. mergeEntries d False b t = Inr t'"
proof (induction d arbitrary: b t)
  case Nil
  then show ?case by simp
next
  case (Cons kv d)
  obtain k v where kv: "kv = (k, v)" by (cases kv)
  from Cons.prems have rest: "\<forall>kv \<in> set d. \<not> HasPrefix (fst kv) ''$''" by simp
  from Cons.prems kv have k: "\<not> HasPrefix k ''$''" by simp
  from k kv Cons.IH[OF rest, of True] show ?case
    by (simp add: classifyKey_def)
qed

lemma mergeDocs_ok: "\<forall>d \<in> set q. wellFormed d \<Longrightarrow> \<exists>t'. mergeDocs q t = Inr t'"
proof (induction q arbitrary: t)
  case Nil
  then show ?case by simp
next
  case (Cons d q)
  show ?case
  proof (cases d)
    case None
    with Cons show ?thesis by simp
  next
    case (Some m)
    with Cons.prems have "\<exists>t1. mergeEntries m False False t = Inr t1"
      using mergeEntries_dollar_ok[of m False t] mergeEntries_bare_ok[of m False t]
      by (auto simp: wellFormed_def)
    then obtain t1 where "mergeEntries m False False t = Inr t1" ..
    with Cons.IH[of t1] Cons.prems Some show ?thesis by simp
  qed
qed

lemma allObjects_Nil: "allObjects []"
  by (simp add: allObjects_def)

lemma mergeUpdate_ok:
  assumes "q \<noteq> []" and "\<forall>d \<in> set q. wellFormed d"
  shows "\<exists>out. mergeUpdate q = Inr (Some out)"
proof -
  from mergeDocs_ok[OF assms(2)] obtain t where t: "mergeDocs q [] = Inr t" by blast
  from toQueryObject_total[OF allObjects_Nil] obtain out where "toQueryObject t [] = Inr out"
    by blast
  with t assms(1) show ?thesis by (simp add: mergeUpdate_def)
qed

lemma mergeUpdate_table:
  assumes "mergeUpdate q = Inr (Some out)"
  shows "argOf out k x =
     (case map_of (rev (concat (map fragmentEntries q))) x of
        None \<Rightarrow> None
      | Some i \<Rightarrow> if op i = k then Some (argument i) else None)"
proof -
  from assms obtain t where t: "mergeDocs q [] = Inr t" and o: "toQueryObject t [] = Inr out"
    by (auto simp: mergeUpdate_def split: if_splits sum.splits)
  from distinct_mergeDocs[OF t] have d: "distinct (map fst t)" by simp
  from map_of_mergeDocs[OF t] have m: "map_of t = map_of (rev (concat (map fragmentEntries q)))"
    by simp
  have e: "argOf [] k x = None" by (simp add: argOf_def)
  from argOf_toQueryObject[OF o d, of k x] m e show ?thesis
    by (simp split: option.splits)
qed

lemma item_eq: "i = \<lparr>op = k, argument = a\<rparr> \<longleftrightarrow> op i = k \<and> argument i = a"
  by (cases i) auto

lemma map_of_rev_absent: "x \<notin> fst ` set es \<Longrightarrow> map_of (rev es) x = None"
  by (simp add: map_of_eq_None_iff)

lemma last_fragment_decides:
  assumes "\<forall>d \<in> set post. x \<notin> fst ` set (fragmentEntries d)"
    and "map_of (rev (fragmentEntries b)) x = Some item"
  shows "map_of (rev (concat (map fragmentEntries (pre @ b # post)))) x = Some item"
proof -
  from assms(1) have "x \<notin> fst ` set (concat (map fragmentEntries post))" by auto
  then have "map_of (rev (concat (map fragmentEntries post))) x = None"
    by (rule map_of_rev_absent)
  with assms(2) show ?thesis
    by (simp add: map_add_def rev_concat split: option.splits)
qed

text \<open>
  Claim C6. The update merger is last-writer-wins per field across fragments, whatever the
  operator: in a list of well-formed fragments, if \<open>b\<close> carries an entry for field \<open>x\<close> and
  no fragment after \<open>b\<close> mentions \<open>x\<close> (so \<open>b\<close> is the last one that does, whatever the
  fragments before it hold), then \<open>mergeUpdate\<close> returns a document that files \<open>x\<close> under
  the operator of \<open>b\<close>'s entry with its argument, and under no other operator; and the
  document groups by operator exactly the entries that survive, one per field.
\<close>

theorem mergeUpdate_last_writer_wins:
  assumes wf: "\<forall>d \<in> set (pre @ Some b # post). wellFormed d"
    and b: "map_of (rev (fragmentEntries (Some b))) x = Some item"
    and post: "\<forall>d \<in> set post. x \<notin> fst ` set (fragmentEntries d)"
  shows "\<exists>out. mergeUpdate (pre @ Some b # post) = Inr (Some out)
           \<and> argOf out (op item) x = Some (argument item)
           \<and> (\<forall>k. k \<noteq> op item \<longrightarrow> argOf out k x = None)
           \<and> (\<forall>k f a. argOf out k f = Some a \<longleftrightarrow>
                 map_of (rev (concat (map fragmentEntries (pre @ Some b # post)))) f
                   = Some \<lparr>op = k, argument = a\<rparr>)"
proof -
  from mergeUpdate_ok[OF _ wf] obtain out where
    out: "mergeUpdate (pre @ Some b # post) = Inr (Some out)" by auto
  note tab = mergeUpdate_table[OF out]
  note last = last_fragment_decides[OF post b, of pre]
  have 1: "argOf out (op item) x = Some (argument item)"
    using tab[of "op item" x] last by simp
  have 2: "\<forall>k. k \<noteq> op item \<longrightarrow> argOf out k x = None"
    using tab[of _ x] last by simp
  have 3: "\<forall>k f a. argOf out k f = Some a \<longleftrightarrow>
             map_of (rev (concat (map fragmentEntries (pre @ Some b # post)))) f
               = Some \<lparr>op = k, argument = a\<rparr>"
    using tab by (auto simp: item_eq split: option.splits if_splits)
  from out 1 2 3 show ?thesis by blast
qed

theorem mergeUpdate_last_writer_wins_witness:
  "wellFormed (Some [(''$set'', JObj [(''x'', JNum 1), (''z'', JNum 5)])])
   \<and> wellFormed (Some [(''$inc'', JObj [(''x'', JNum 2)])])
   \<and> wellFormed (Some [(''note'', JStr ''n'')])
   \<and> map_of (rev (fragmentEntries (Some [(''$inc'', JObj [(''x'', JNum 2)])]))) ''x''
       = Some \<lparr>op = ''$inc'', argument = JNum 2\<rparr>
   \<and> ''x'' \<notin> fst ` set (fragmentEntries (Some [(''note'', JStr ''n'')]))
   \<and> (\<exists>out. mergeUpdate [Some [(''$set'', JObj [(''x'', JNum 1), (''z'', JNum 5)])],
                          Some [(''$inc'', JObj [(''x'', JNum 2)])],
                          Some [(''note'', JStr ''n'')]] = Inr (Some out)
          \<and> argOf out ''$inc'' ''x'' = Some (JNum 2)
          \<and> argOf out ''$set'' ''x'' = None)"
proof -
  let ?a = "Some [(''$set'', JObj [(''x'', JNum 1), (''z'', JNum 5)])]"
  let ?b = "[(''$inc'', JObj [(''x'', JNum 2)])]"
  let ?c = "Some [(''note'', JStr ''n'')]"
  have wf: "\<forall>d \<in> set ([?a] @ Some ?b # [?c]). wellFormed d"
    by (simp add: wellFormed_def HasPrefix_def isUpdateOp_def)
  have b: "map_of (rev (fragmentEntries (Some ?b))) ''x''
             = Some \<lparr>op = ''$inc'', argument = JNum 2\<rparr>"
    by (simp add: fragmentEntries_def entryItems_def HasPrefix_def isUpdateOp_def)
  have post: "\<forall>d \<in> set [?c]. ''x'' \<notin> fst ` set (fragmentEntries d)"
    by (simp add: fragmentEntries_def entryItems_def HasPrefix_def)
  from mergeUpdate_last_writer_wins[OF wf b post] wf b post show ?thesis
    by auto
qed

lemma mergeEntries_mixed:
  "(b2 \<and> (\<exists>kv \<in> set d. HasPrefix (fst kv) ''$''))
   \<or> (b1 \<and> (\<exists>kv \<in> set d. \<not> HasPrefix (fst kv) ''$''))
   \<or> mixedKeys d \<Longrightarrow>
   \<exists>e. mergeEntries d b1 b2 t = Inl e"
proof (induction d arbitrary: b1 b2 t)
  case Nil
  then show ?case by (simp add: mixedKeys_def)
next
  case (Cons kv d)
  obtain k v where kv: "kv = (k, v)" by (cases kv)
  show ?case
  proof (cases "classifyKey k b1 b2")
    case (Inl e)
    with kv show ?thesis by simp
  next
    case (Inr flags)
    show ?thesis
    proof (cases "HasPrefix k ''$''")
      case True
      with Inr have f: "flags = (True, b2)" and nb2: "\<not> b2"
        by (auto simp: classifyKey_def split: if_splits)
      from Cons.prems kv True nb2 have "\<exists>kv \<in> set d. \<not> HasPrefix (fst kv) ''$''"
        by (auto simp: mixedKeys_def)
      then have "\<And>t'. \<exists>e. mergeEntries d True b2 t' = Inl e"
        using Cons.IH by blast
      with kv Inr f show ?thesis
        by (auto split: option.splits)
    next
      case False
      with Inr have f: "flags = (b1, True)" and nb1: "\<not> b1"
        by (auto simp: classifyKey_def split: if_splits)
      from Cons.prems kv False nb1 have "\<exists>kv \<in> set d. HasPrefix (fst kv) ''$''"
        by (auto simp: mixedKeys_def)
      then have "\<And>t'. \<exists>e. mergeEntries d b1 True t' = Inl e"
        using Cons.IH by blast
      with kv Inr f nb1 show ?thesis
        by auto
    qed
  qed
qed

lemma mergeUpdate_mixed: "mixedKeys d \<Longrightarrow> \<exists>e. mergeUpdate [Some d] = Inl e"
  using mergeEntries_mixed[of False d False "[]"]
  by (auto simp: mergeUpdate_def)

section \<open>Properties of the rule compiler\<close>

lemmas compile_defs = CompileRawRules_def compileTable_def compileQueryEnforces_def
  compileSubject_def HasPrefix_def validateUpdateRules_def mergeUpdate_def indexList_def
  acceptConfig_def tableWithUpdate_def compiledTable_def noQueryRules_def classifyKey_def
  isUpdateOp_def asciiToLower_def toLowerChar_def UserStateAnonymous_def

lemma mixedFragment_mixed: "mixedKeys mixedFragment"
  by (simp add: mixedKeys_def mixedFragment_def HasPrefix_def)

lemma prefix_drop_eq:
  assumes "HasPrefix a p" and "HasPrefix b p" and "length p = 2" and "drop 2 a = drop 2 b"
  shows "a = b"
proof -
  from assms(1,3) have a: "a = p @ drop 2 a"
    unfolding HasPrefix_def by (metis append_take_drop_id)
  from assms(2,3) have b: "b = p @ drop 2 b"
    unfolding HasPrefix_def by (metis append_take_drop_id)
  from a b assms(4) show ?thesis by simp
qed

lemma compileSubject_stores:
  "compileSubject toLower cfg k f qr = Inr qr' \<Longrightarrow> storedAt toLower qr' k = Some f"
  by (auto simp: compileSubject_def storedAt_def Let_def update_conv' split: if_splits)

lemma prefix_exclusive:
  "HasPrefix k ''g:'' \<Longrightarrow> \<not> HasPrefix k ''u:'' \<and> \<not> HasPrefix k ''s:'' \<and> k \<noteq> ''default''"
  "HasPrefix k ''u:'' \<Longrightarrow> \<not> HasPrefix k ''s:'' \<and> k \<noteq> ''default''"
  "HasPrefix k ''s:'' \<Longrightarrow> k \<noteq> ''default''"
  by (auto simp: HasPrefix_def)

lemma compileSubject_keeps:
  assumes "compileSubject toLower cfg k' f' qr = Inr qr'" and "slotOf toLower k' \<noteq> slotOf toLower k"
  shows "storedAt toLower qr' k = storedAt toLower qr k"
proof -
  have g: "HasPrefix k' ''g:'' \<Longrightarrow> HasPrefix k ''g:'' \<Longrightarrow> drop 2 k' \<noteq> drop 2 k"
    using assms(2) prefix_drop_eq[of k' "''g:''" k] prefix_exclusive[of k] prefix_exclusive[of k']
    by (auto simp: slotOf_def)
  have u: "HasPrefix k' ''u:'' \<Longrightarrow> HasPrefix k ''u:'' \<Longrightarrow> drop 2 k' \<noteq> drop 2 k"
    using assms(2) prefix_drop_eq[of k' "''u:''" k] prefix_exclusive[of k] prefix_exclusive[of k']
    by (auto simp: slotOf_def)
  have s: "HasPrefix k' ''s:'' \<Longrightarrow> HasPrefix k ''s:'' \<Longrightarrow>
           toLower (drop 2 k') \<noteq> toLower (drop 2 k)"
    using assms(2) by (auto simp: slotOf_def)
  have d: "k' = ''default'' \<Longrightarrow> k \<noteq> ''default''"
    using assms(2) by auto
  from assms(1) g u s d prefix_exclusive[of k] prefix_exclusive[of k'] show ?thesis
    by (auto simp: compileSubject_def storedAt_def Let_def update_conv' split: if_splits)
qed

lemma compileSubjects_keeps:
  "compileSubjects toLower cfg post q = Inr qr \<Longrightarrow> \<forall>k' \<in> fst ` set post. slotOf toLower k' \<noteq> slotOf toLower k \<Longrightarrow>
   storedAt toLower qr k = storedAt toLower q k"
proof (induction post arbitrary: q)
  case Nil
  then show ?case by simp
next
  case (Cons kf post)
  obtain k' f' where kf: "kf = (k', f')" by (cases kf)
  from Cons.prems(1) kf obtain q1 where 1: "compileSubject toLower cfg k' f' q = Inr q1"
    and 2: "compileSubjects toLower cfg post q1 = Inr qr"
    by (auto split: sum.splits)
  from Cons.prems(2) kf have 3: "slotOf toLower k' \<noteq> slotOf toLower k"
    and 4: "\<forall>k' \<in> fst ` set post. slotOf toLower k' \<noteq> slotOf toLower k" by auto
  from Cons.IH[OF 2 4] compileSubject_keeps[OF 1 3] show ?case by simp
qed

lemma compileSubjects_append:
  "compileSubjects toLower cfg (xs @ ys) q =
     (case compileSubjects toLower cfg xs q of Inl e \<Rightarrow> Inl e | Inr q' \<Rightarrow> compileSubjects toLower cfg ys q')"
  by (induction xs arbitrary: q) (auto split: sum.splits)

lemma compileSubjects_stores:
  assumes "compileSubjects toLower cfg (pre @ (k, f) # post) q = Inr qr"
    and "\<forall>k' \<in> fst ` set post. slotOf toLower k' \<noteq> slotOf toLower k"
  shows "storedAt toLower qr k = Some f"
proof -
  from assms(1) obtain q1 q2 where 1: "compileSubject toLower cfg k f q1 = Inr q2"
    and 2: "compileSubjects toLower cfg post q2 = Inr qr"
    by (auto simp: compileSubjects_append split: sum.splits)
  from compileSubjects_keeps[OF 2 assms(2)] compileSubject_stores[OF 1] show ?thesis by simp
qed

lemma validateFragments_mixed:
  "(key, Some d) \<in> set m \<Longrightarrow> mixedKeys d \<Longrightarrow> \<exists>e. validateFragments m = Some e"
proof (induction m)
  case Nil
  then show ?case by simp
next
  case (Cons kf m)
  obtain k f where kf: "kf = (k, f)" by (cases kf)
  show ?case
  proof (cases "mergeUpdate [f]")
    case (Inl e)
    with kf show ?thesis by simp
  next
    case (Inr out)
    with Cons.prems kf mergeUpdate_mixed[of d] have "(key, Some d) \<in> set m" by auto
    from Cons.IH[OF this Cons.prems(2)] Inr kf show ?thesis by simp
  qed
qed

lemma validateUpdateRules_mixed:
  assumes "storedAt toLower qr k = Some (Some d)" and "mixedKeys d"
  shows "\<exists>e. validateUpdateRules (Some qr) = Some e"
proof -
  have m: "\<And>m key. map_of m key = Some (Some d) \<Longrightarrow> \<exists>e. validateFragments m = Some e"
    using validateFragments_mixed[OF _ assms(2)] by (blast dest: map_of_SomeD)
  from assms(1) consider
      "map_of (groupRules qr) (drop 2 k) = Some (Some d)"
    | "map_of (userRules qr) (drop 2 k) = Some (Some d)"
    | "map_of (userStateRules qr) (toLower (drop 2 k)) = Some (Some d)"
    | "defaultRules qr = Some d"
    by (auto simp: storedAt_def split: if_splits)
  then show ?thesis
  proof cases
    case 1
    from m[OF 1] show ?thesis
      by (auto simp: validateUpdateRules_def split: option.splits sum.splits)
  next
    case 2
    from m[OF 2] show ?thesis
      by (auto simp: validateUpdateRules_def split: option.splits sum.splits)
  next
    case 3
    from m[OF 3] show ?thesis
      by (auto simp: validateUpdateRules_def split: option.splits sum.splits)
  next
    case 4
    with mergeUpdate_mixed[OF assms(2)] show ?thesis
      by (auto simp: validateUpdateRules_def split: option.splits sum.splits)
  qed
qed

lemma compileTable_mixed:
  assumes "updateQueryEnforces.Update (tableEnforces.Update te) = pre @ (k, Some d) # post"
    and "mixedKeys d"
    and "\<forall>k' \<in> fst ` set post. slotOf toLower k' \<noteq> slotOf toLower k"
  shows "\<exists>e. compileTable toLower cfg te = Inl e"
proof (cases "compileQueryEnforces toLower cfg (updateQueryEnforces.Update (tableEnforces.Update te))")
  case (Inl e)
  then show ?thesis
    by (auto simp: compileTable_def split: sum.splits)
next
  case (Inr qr)
  with assms(1) have "compileSubjects toLower cfg (pre @ (k, Some d) # post)
      \<lparr>groupRules = [], userRules = [], userStateRules = [], defaultRules = Some []\<rparr> = Inr qr"
    by (simp add: compileQueryEnforces_def)
  from compileSubjects_stores[OF this assms(3)] have "storedAt toLower qr k = Some (Some d)" .
  from validateUpdateRules_mixed[OF this assms(2)] Inr show ?thesis
    by (auto simp: compileTable_def split: sum.splits)
qed

lemma compileTables_fails:
  "(tableName, te) \<in> set ts \<Longrightarrow> compileTable toLower cfg te = Inl e \<Longrightarrow>
   \<exists>e'. compileTables toLower cfg ts r = Inl e'"
proof (induction ts arbitrary: r)
  case Nil
  then show ?case by simp
next
  case (Cons t ts)
  obtain n te' where t: "t = (n, te')" by (cases t)
  show ?case
  proof (cases "compileTable toLower cfg te'")
    case (Inl e1)
    with t show ?thesis by simp
  next
    case (Inr tr)
    with Cons.prems t have "(tableName, te) \<in> set ts" by auto
    from Cons.IH[OF this Cons.prems(2)] Inr t show ?thesis by simp
  qed
qed

text \<open>
  The run of \<open>configShadowed\<close> depends on \<open>strings.ToLower\<close> at its two state names only.
\<close>

lemma configShadowed_compiles:
  assumes "toLower ''ANONYMOUS'' = ''anonymous''" and "toLower ''anonymous'' = ''anonymous''"
  shows "CompileRawRules toLower acceptConfig (Inr (Some configShadowed))
           = Inr (Some rulesShadowed)"
  using assms
  by (simp add: configShadowed_def rulesShadowed_def mixedFragment_def CompileRawRules_def
        compileTable_def compileQueryEnforces_def compileSubject_def HasPrefix_def
        validateUpdateRules_def mergeUpdate_def acceptConfig_def tableWithUpdate_def
        compiledTable_def noQueryRules_def classifyKey_def UserStateAnonymous_def)

text \<open>
  A mixed fragment that compilation does not reject: on the run that ranges over
  \<open>s:ANONYMOUS\<close> before \<open>s:anonymous\<close>, the sound fragment overwrites the mixed one in
  \<open>userStateRules["anonymous"]\<close> before \<open>validateUpdateRules\<close> runs, and the configuration
  compiles. Both state names are ASCII.
\<close>

theorem shadowed_mixed_fragment_compiles:
  "mixedKeys mixedFragment
   \<and> map_of (updateQueryEnforces.Update (tableEnforces.Update
        (tableWithUpdate
           [(''s:ANONYMOUS'', Some mixedFragment), (''s:anonymous'', Some [(''x'', JNum 1)])])))
        ''s:ANONYMOUS'' = Some (Some mixedFragment)
   \<and> CompileRawRules asciiToLower acceptConfig (Inr (Some configShadowed))
       = Inr (Some rulesShadowed)"
proof -
  have "CompileRawRules asciiToLower acceptConfig (Inr (Some configShadowed))
          = Inr (Some rulesShadowed)"
    by (simp add: configShadowed_def rulesShadowed_def compile_defs mixedFragment_def)
  moreover have "map_of (updateQueryEnforces.Update (tableEnforces.Update
        (tableWithUpdate
           [(''s:ANONYMOUS'', Some mixedFragment), (''s:anonymous'', Some [(''x'', JNum 1)])])))
        ''s:ANONYMOUS'' = Some (Some mixedFragment)"
    by (simp add: tableWithUpdate_def)
  ultimately show ?thesis using mixedFragment_mixed by blast
qed

text \<open>
  Claim C7, as amended. Compilation fails when an update-rule fragment of any table mixes
  bare field keys with \<open>$\<close>-prefixed operator keys at its top level, provided that no
  subject key ranged over after it in the same update section is compiled into the same
  slot (a later \<open>s:\<close> key whose state name \<open>strings.ToLower\<close> maps to the same name would
  overwrite it unchecked). This holds for every function \<open>toLower\<close>, Go's own included.
  Scenario S5 is the witness.
\<close>

theorem compile_rejects_mixed:
  assumes "(tableName, te) \<in> set (RulesConfig.Rules cfg)"
    and "updateQueryEnforces.Update (tableEnforces.Update te)
           = pre @ (subject, Some fragment) # post"
    and "mixedKeys fragment"
    and "\<forall>k \<in> fst ` set post. slotOf toLower k \<noteq> slotOf toLower subject"
  shows "\<exists>e. CompileRawRules toLower validateStruct (Inr (Some cfg)) = Inl e"
proof -
  from compileTable_mixed[OF assms(2) assms(3) assms(4)] obtain e where
    "compileTable toLower cfg te = Inl e" by blast
  from compileTables_fails[OF assms(1) this,
      where r = "addGroups (Groups cfg) \<lparr>groups = [], userGroups = [], Rules.rules = []\<rparr>"]
  show ?thesis
    by (auto simp: CompileRawRules_def Let_def split: option.splits sum.splits)
qed

theorem compile_rejects_mixed_witness:
  "mixedKeys mixedFragment
   \<and> (\<exists>e. CompileRawRules asciiToLower acceptConfig (Inr (Some configS5)) = Inl e)"
proof -
  have 1: "(''table1'', tableWithUpdate [(''default'', Some mixedFragment)])
             \<in> set (RulesConfig.Rules configS5)"
    by (simp add: configS5_def)
  have 2: "updateQueryEnforces.Update (tableEnforces.Update
             (tableWithUpdate [(''default'', Some mixedFragment)]))
             = [] @ (''default'', Some mixedFragment) # []"
    by (simp add: tableWithUpdate_def)
  have 3: "\<forall>k \<in> fst ` set ([] :: queryEnforces).
             slotOf asciiToLower k \<noteq> slotOf asciiToLower ''default''"
    by simp
  from compile_rejects_mixed[OF 1 2 mixedFragment_mixed 3, where validateStruct = acceptConfig]
    mixedFragment_mixed
  show ?thesis by simp
qed

lemma configS5_rejected:
  "CompileRawRules toLower acceptConfig (Inr (Some configS5)) = Inl EUpdateMixed"
  by (simp add: configS5_def compile_defs mixedFragment_def)

subsection \<open>Group order\<close>

lemma indexList_update:
  "indexList (AList.update k v m) k' = (if k' = k then v else indexList m k')"
  by (simp add: indexList_def update_conv')

lemma userGroups_addUsers:
  "indexList (userGroups (addUsers g us r)) uid
     = indexList (userGroups r) uid @ replicate (count_list us uid) g"
  by (induction us arbitrary: r) (auto simp: indexList_update replicate_append_same)

lemma userGroups_addGroups:
  "indexList (userGroups (addGroups gs r)) uid = indexList (userGroups r) uid @ memberships gs uid"
proof (induction gs arbitrary: r)
  case Nil
  then show ?case by (simp add: memberships_def)
next
  case (Cons g gs)
  obtain n us where g: "g = (n, us)" by (cases g)
  from Cons.IH[of "addUsers n us r"] g show ?case
    by (simp add: userGroups_addUsers memberships_def)
qed

lemma userGroups_compileTables:
  "compileTables toLower cfg ts r = Inr r' \<Longrightarrow> userGroups r' = userGroups r"
proof (induction ts arbitrary: r)
  case Nil
  then show ?case by simp
next
  case (Cons t ts)
  obtain n te where t: "t = (n, te)" by (cases t)
  from Cons.prems t obtain tr where
    "compileTables toLower cfg ts (r\<lparr>Rules.rules := AList.update n (Some tr) (Rules.rules r)\<rparr>) = Inr r'"
    by (auto split: sum.splits)
  from Cons.IH[OF this] show ?case by simp
qed

lemma userGroups_compiled:
  assumes "CompileRawRules toLower validateStruct (Inr (Some cfg)) = Inr (Some r)"
  shows "indexList (userGroups r) uid = memberships (Groups cfg) uid"
proof -
  from assms have
    "compileTables toLower cfg (RulesConfig.Rules cfg)
       (addGroups (Groups cfg) \<lparr>groups = [], userGroups = [], Rules.rules = []\<rparr>) = Inr r"
    by (auto simp: CompileRawRules_def Let_def split: option.splits sum.splits)
  from userGroups_compileTables[OF this] show ?thesis
    by (simp add: userGroups_addGroups) (simp add: indexList_def)
qed

lemma mset_memberships:
  "mset (memberships gs uid)
     = (\<Sum>g \<in># mset gs. mset (replicate (count_list (snd g) uid) (fst g)))"
  by (induction gs) (auto simp: memberships_def)

lemma same_map_same_entries:
  assumes "distinct (map fst xs)" and "distinct (map fst ys)" and "map_of xs = map_of ys"
  shows "mset xs = mset ys"
proof -
  have "set xs = set ys"
  proof (rule set_eqI)
    fix kv :: "'a \<times> 'b"
    obtain k v where kv: "kv = (k, v)" by (cases kv)
    from assms(1) have "(k, v) \<in> set xs \<longleftrightarrow> map_of xs k = Some v" by simp
    moreover from assms(2) have "(k, v) \<in> set ys \<longleftrightarrow> map_of ys k = Some v" by simp
    ultimately show "kv \<in> set xs \<longleftrightarrow> kv \<in> set ys" using assms(3) kv by simp
  qed
  moreover from assms(1) have "distinct xs" by (rule distinct_map[THEN iffD1, THEN conjunct1])
  moreover from assms(2) have "distinct ys" by (rule distinct_map[THEN iffD1, THEN conjunct1])
  ultimately show ?thesis by (simp add: set_eq_iff_mset_eq_distinct)
qed

text \<open>
  Two compilations of one configuration whose \<open>userGroups\<close> lists for the same user differ
  in order: the loop ranges over the map \<open>cfg.Groups\<close> directly, in the order of the run.
\<close>

theorem group_order_differs:
  "map_of (Groups configAB) = map_of (Groups configBA)
   \<and> RulesConfig.Rules configAB = RulesConfig.Rules configBA
   \<and> CompileRawRules asciiToLower acceptConfig (Inr (Some configAB)) = Inr (Some rulesAB)
   \<and> CompileRawRules asciiToLower acceptConfig (Inr (Some configBA)) = Inr (Some rulesBA)
   \<and> indexList (userGroups rulesAB) ''u'' = [''a'', ''b'']
   \<and> indexList (userGroups rulesBA) ''u'' = [''b'', ''a'']"
  by (auto simp: configAB_def configBA_def rulesAB_def rulesBA_def compile_defs fun_eq_iff)

text \<open>
  Claim C9, as amended. Two compilations of the same configuration (the same groups map,
  ranged over in whatever order) produce Rules objects whose \<open>userGroups\<close> lists for a user
  hold the same groups, each as often; the order of the list is that of the run.
\<close>

theorem userGroups_same_members:
  assumes "distinct (map fst (Groups c1))" and "distinct (map fst (Groups c2))"
    and "map_of (Groups c1) = map_of (Groups c2)"
    and "CompileRawRules lower1 v1 (Inr (Some c1)) = Inr (Some r1)"
    and "CompileRawRules lower2 v2 (Inr (Some c2)) = Inr (Some r2)"
  shows "mset (indexList (userGroups r1) uid) = mset (indexList (userGroups r2) uid)"
  using same_map_same_entries[OF assms(1-3)]
  by (simp add: userGroups_compiled[OF assms(4)] userGroups_compiled[OF assms(5)]
        mset_memberships)

theorem userGroups_same_members_witness:
  "distinct (map fst (Groups configAB)) \<and> distinct (map fst (Groups configBA))
   \<and> map_of (Groups configAB) = map_of (Groups configBA)
   \<and> CompileRawRules asciiToLower acceptConfig (Inr (Some configAB)) = Inr (Some rulesAB)
   \<and> CompileRawRules asciiToLower acceptConfig (Inr (Some configBA)) = Inr (Some rulesBA)
   \<and> mset (indexList (userGroups rulesAB) ''u'') = mset (indexList (userGroups rulesBA) ''u'')"
proof -
  have 1: "distinct (map fst (Groups configAB))" by (simp add: configAB_def)
  have 2: "distinct (map fst (Groups configBA))" by (simp add: configBA_def)
  have 3: "map_of (Groups configAB) = map_of (Groups configBA)"
    by (auto simp: configAB_def configBA_def fun_eq_iff)
  have 4: "CompileRawRules asciiToLower acceptConfig (Inr (Some configAB)) = Inr (Some rulesAB)"
    by (simp add: configAB_def rulesAB_def compile_defs)
  have 5: "CompileRawRules asciiToLower acceptConfig (Inr (Some configBA)) = Inr (Some rulesBA)"
    by (simp add: configBA_def rulesBA_def compile_defs)
  from userGroups_same_members[OF 1 2 3 4 5, of "''u''"] 1 2 3 4 5 show ?thesis by simp
qed

section \<open>Properties of the update enforcer\<close>

lemmas enforce_defs = EnforceRulesOnFilter_def EnforceRulesOnUpdate_def EnforceRulesOnInsert_def
  findUserRules_def findRulesToApply_def index_def indexList_def box_def rulesS1_def
  noQueryRules_def

lemma update_append: "k \<notin> fst ` set al \<Longrightarrow> AList.update k v al = al @ [(k, v)]"
  by (induction al) auto

lemma mergeEntries_bare:
  assumes "\<forall>kv \<in> set d. \<not> HasPrefix (fst kv) ''$''" and "distinct (map fst d)"
    and "fst ` set d \<inter> fst ` set t = {}"
  shows "mergeEntries d False b t
           = Inr (t @ map (\<lambda>kv. (fst kv, \<lparr>op = ''$set'', argument = snd kv\<rparr>)) d)"
  using assms
proof (induction d arbitrary: b t)
  case Nil
  then show ?case by simp
next
  case (Cons kv d)
  obtain k v where kv: "kv = (k, v)" by (cases kv)
  let ?t = "t @ [(k, \<lparr>op = ''$set'', argument = v\<rparr>)]"
  from Cons.prems kv have k: "\<not> HasPrefix k ''$''" and kt: "k \<notin> fst ` set t" by auto
  from Cons.prems kv have 1: "\<forall>kv \<in> set d. \<not> HasPrefix (fst kv) ''$''"
    and 2: "distinct (map fst d)" and 3: "fst ` set d \<inter> fst ` set ?t = {}" by auto
  from Cons.IH[OF 1 2 3, of True] k kv update_append[OF kt] show ?case
    by (simp add: classifyKey_def)
qed

lemma toQueryObject_set:
  assumes "distinct (map fst d)" and "fst ` set d \<inter> fst ` set acc = {}"
  shows "toQueryObject (map (\<lambda>kv. (fst kv, \<lparr>op = ''$set'', argument = snd kv\<rparr>)) d)
           [(''$set'', JObj acc)] = Inr [(''$set'', JObj (acc @ d))]"
  using assms
proof (induction d arbitrary: acc)
  case Nil
  then show ?case by simp
next
  case (Cons kv d)
  obtain k v where kv: "kv = (k, v)" by (cases kv)
  from Cons.prems kv have ka: "k \<notin> fst ` set acc" by auto
  from Cons.prems kv have 1: "distinct (map fst d)"
    and 2: "fst ` set d \<inter> fst ` set (acc @ [(k, v)]) = {}" by auto
  from Cons.IH[OF 1 2] kv update_append[OF ka] show ?case by simp
qed

lemma toQueryObject_bare:
  assumes "distinct (map fst d)" and "d \<noteq> []"
  shows "toQueryObject (map (\<lambda>kv. (fst kv, \<lparr>op = ''$set'', argument = snd kv\<rparr>)) d) []
           = Inr [(''$set'', JObj d)]"
proof -
  from assms(2) obtain kv d' where d: "d = kv # d'" by (cases d) auto
  obtain k v where kv: "kv = (k, v)" by (cases kv)
  from assms(1) d kv have 1: "distinct (map fst d')"
    and 2: "fst ` set d' \<inter> fst ` set [(k, v)] = {}" by auto
  from toQueryObject_set[OF 1 2] d kv show ?thesis by simp
qed

lemma mergeUpdate_bare:
  assumes "\<forall>kv \<in> set d. \<not> HasPrefix (fst kv) ''$''" and "distinct (map fst d)"
    and "e = None \<or> e = Some []"
  shows "mergeUpdate [Some d, e] = Inr (Some (if d = [] then [] else [(''$set'', JObj d)]))"
proof -
  have me: "mergeEntries d False False []
              = Inr (map (\<lambda>kv. (fst kv, \<lparr>op = ''$set'', argument = snd kv\<rparr>)) d)"
    using mergeEntries_bare[OF assms(1) assms(2), of "[]" False] by simp
  have md: "mergeDocs [Some d, e] []
              = Inr (map (\<lambda>kv. (fst kv, \<lparr>op = ''$set'', argument = snd kv\<rparr>)) d)"
    using me assms(3) by auto
  show ?thesis
  proof (cases "d = []")
    case True
    with md show ?thesis by (simp add: mergeUpdate_def)
  next
    case False
    with md toQueryObject_bare[OF assms(2) False] show ?thesis by (simp add: mergeUpdate_def)
  qed
qed

lemma findRulesToApply_no_subject:
  assumes "map_of (userStateRules qr) userState = None"
    and "\<forall>g \<in> set (indexList (userGroups r) uid). map_of (groupRules qr) g = None"
    and "map_of (userRules qr) uid = None"
  shows "findRulesToApply r (Some qr) uid userState = Inr [None, None]"
proof -
  from assms(2) have f: "find (\<lambda>g. map_of (groupRules qr) g = Some None)
      (indexList (userGroups r) uid) = None"
    by (auto simp: find_None_iff)
  from assms(2) have e: "filter (\<lambda>g. map_of (groupRules qr) g \<noteq> None)
      (indexList (userGroups r) uid) = []"
    by (auto simp: filter_empty_conv)
  show ?thesis
    using assms(1,3) groupLoop_allow[OF f, of "[None]"] e
    by (simp add: findRulesToApply_def index_def Let_def)
qed

lemma mergeUpdate_nils: "mergeUpdate [None, None] = Inr (Some [])"
  by (simp add: mergeUpdate_def)

text \<open>An empty caller update, which has no key beginning with \<open>$\<close>, comes back empty.\<close>

theorem empty_update_not_lifted:
  "EnforceRulesOnUpdate InjectMagicVars rulesS1 (Some []) ''table1'' ''u2'' ''logged_in'' (Some [])
     = Inr (Some [])
   \<and> EnforceRulesOnUpdate InjectMagicVars rulesS1 (Some []) ''table1'' ''u2'' ''logged_in''
       (Some []) \<noteq> Inr (Some [(''$set'', JObj [])])"
  by (simp add: enforce_defs mergeUpdate_def InjectMagicVars_def)

text \<open>
  Claim C10, as amended. \<open>EnforceRulesOnUpdate\<close> passes the caller's update through the
  merger even when no rule fragment applies: for a table that has compiled update rules and
  a principal matching no subject, a caller update in bare-field form \<open>d\<close> that has at least
  one field is returned lifted as \<open>{"$set": d}\<close>, and an empty \<open>d\<close> is returned as the empty
  document. The injector is any one that leaves an empty document without entries.
\<close>

theorem update_lifts_bare:
  assumes "map_of (Rules.rules r) table = Some (Some tableRules)"
    and "updateRules tableRules = Some qr"
    and "map_of (userStateRules qr) userState = None"
    and "\<forall>g \<in> set (indexList (userGroups r) uid). map_of (groupRules qr) g = None"
    and "map_of (userRules qr) uid = None"
    and "\<forall>kv \<in> set d. \<not> HasPrefix (fst kv) ''$''"
    and "distinct (map fst d)"
    and "inject (Some []) vars = None \<or> inject (Some []) vars = Some []"
  shows "EnforceRulesOnUpdate inject r (Some d) table uid userState vars
           = Inr (Some (if d = [] then [] else [(''$set'', JObj d)]))"
  using assms(1,2) findRulesToApply_no_subject[OF assms(3-5)] mergeUpdate_nils
    mergeUpdate_bare[OF assms(6,7,8)]
  by (simp add: EnforceRulesOnUpdate_def)

theorem update_lifts_bare_witness:
  "EnforceRulesOnUpdate InjectMagicVars rulesS1
     (Some [(''name'', JStr ''n''), (''role'', JStr ''guest'')]) ''table1'' ''u2'' ''logged_in''
     (Some [])
     = Inr (Some [(''$set'', JObj [(''name'', JStr ''n''), (''role'', JStr ''guest'')])])"
proof -
  let ?t = "\<lparr>TableRules.rules =
                  [(RuleQueryFind,
                    Some (noQueryRules\<lparr>groupRules :=
                            [(''admins'', Some [(''tenant'', JStr ''T'')])]\<rparr>)),
                   (RuleQueryCount, Some noQueryRules),
                   (RuleQueryRemove, Some noQueryRules),
                   (RuleQueryInsert, Some noQueryRules),
                   (RuleQueryUpdate, Some noQueryRules)],
                updateRules = Some noQueryRules\<rparr>"
  let ?d = "[(''name'', JStr ''n''), (''role'', JStr ''guest'')]"
  have 1: "map_of (Rules.rules rulesS1) ''table1'' = Some (Some ?t)"
    by (simp add: rulesS1_def)
  have 2: "updateRules ?t = Some noQueryRules"
    by simp
  have 3: "map_of (userStateRules noQueryRules) ''logged_in'' = None"
    by (simp add: noQueryRules_def)
  have 4: "\<forall>g \<in> set (indexList (userGroups rulesS1) ''u2'').
             map_of (groupRules noQueryRules) g = None"
    by (simp add: noQueryRules_def)
  have 5: "map_of (userRules noQueryRules) ''u2'' = None"
    by (simp add: noQueryRules_def)
  have 6: "\<forall>kv \<in> set ?d. \<not> HasPrefix (fst kv) ''$''"
    by (simp add: HasPrefix_def)
  have 7: "distinct (map fst ?d)"
    by simp
  have 8: "InjectMagicVars (Some []) (Some []) = None
           \<or> InjectMagicVars (Some []) (Some []) = Some []"
    by (simp add: InjectMagicVars_def)
  from update_lifts_bare[where inject = InjectMagicVars and vars = "Some []" and d = ?d
      and r = rulesS1 and table = "''table1''" and tableRules = ?t and qr = noQueryRules
      and uid = "''u2''" and userState = "''logged_in''", OF 1 2 3 4 5 6 7 8]
  show ?thesis by simp
qed

section \<open>Where the code departs from its documentation\<close>

text \<open>
  Claim C1. \<open>EnforceRulesOnFilter\<close> never reads its parameter \<open>qt\<close>: it looks up the rules of
  \<open>RuleQueryUpdate\<close>. In scenario S1 the \<open>find\<close> rule of group \<open>admins\<close> is therefore not
  applied, and the result holds two nil fragments instead of \<open>{"tenant":"T"}\<close>.
\<close>

theorem filter_ignores_query_kind:
  "EnforceRulesOnFilter inject r f table uid userState vars qt
     = EnforceRulesOnFilter inject r f table uid userState vars RuleQueryUpdate
   \<and> CompileRawRules toLower acceptConfig (Inr (Some configS1)) = Inr (Some rulesS1)
   \<and> EnforceRulesOnFilter inject rulesS1 (Some [(''name'', JStr ''x'')]) ''table1'' ''u1''
       ''logged_in'' (Some []) RuleQueryFind
     = Inr (Some [(''$and'',
         JArr [box (inject None (Some [])), box (inject None (Some [])),
               JObj [(''name'', JStr ''x'')]])])
   \<and> EnforceRulesOnFilter inject rulesS1 (Some [(''name'', JStr ''x'')]) ''table1'' ''u1''
       ''logged_in'' (Some []) RuleQueryFind
     \<noteq> Inr (Some [(''$and'',
         JArr [JObj [(''tenant'', JStr ''T'')], JObj [(''name'', JStr ''x'')]])])"
  by (simp add: configS1_def noUpdateEnforces_def compile_defs enforce_defs)

text \<open>
  Claim C2. For a table without rules \<open>findUserRules\<close> returns nil, and \<open>findRulesToApply\<close>
  dereferences it: the filter and insert operations panic, where the update operation,
  which checks for nil itself, returns the caller's document.
\<close>

theorem missing_table_panics:
  "findUserRules rulesS1 ''table2'' qt = None
   \<and> EnforceRulesOnFilter inject rulesS1 f ''table2'' uid userState vars qt = Inl PanicNilDeref
   \<and> EnforceRulesOnInsert inject rulesS1 d ''table2'' uid userState vars = Inl PanicNilDeref
   \<and> EnforceRulesOnUpdate inject rulesS1 d ''table2'' uid userState vars = Inr d"
  by (simp add: enforce_defs)

lemma groupLoop_ignores_default:
  "groupLoop (qr\<lparr>defaultRules := fragment\<rparr>) gs acc = groupLoop qr gs acc"
  by (induction gs arbitrary: acc) (auto simp: index_def split: option.splits)

text \<open>
  Claim C3. \<open>findRulesToApply\<close> appends the state rule and the user rule whether or not
  their keys exist, so its list is never empty and the default rule is never read: with no
  tier contributing, a default fragment is not returned and a null default does not deny.
\<close>

theorem default_never_consulted:
  "findRulesToApply r (Some (qr\<lparr>defaultRules := fragment\<rparr>)) uid userState
     = findRulesToApply r (Some qr) uid userState
   \<and> findRulesToApply tieredMembers (Some defaultOnly) ''u9'' ''logged_in'' = Inr [None, None]
   \<and> findRulesToApply tieredMembers (Some defaultDenied) ''u9'' ''logged_in'' = Inr [None, None]"
proof -
  have "findRulesToApply r (Some (qr\<lparr>defaultRules := fragment\<rparr>)) uid userState
          = findRulesToApply r (Some qr) uid userState"
    by (simp add: findRulesToApply_def groupLoop_ignores_default Let_def
          cong: option.case_cong sum.case_cong)
  moreover have
    "findRulesToApply tieredMembers (Some defaultOnly) ''u9'' ''logged_in'' = Inr [None, None]"
    by (simp add: findRulesToApply_def index_def indexList_def defaultOnly_def noQueryRules_def
          tieredMembers_def)
  moreover have
    "findRulesToApply tieredMembers (Some defaultDenied) ''u9'' ''logged_in'' = Inr [None, None]"
    by (simp add: findRulesToApply_def index_def indexList_def defaultDenied_def
          noQueryRules_def tieredMembers_def)
  ultimately show ?thesis by blast
qed

text \<open>
  Claim C4. Scenario S2: no tier contributes and no default is configured, yet the caller's
  filter comes back wrapped in \<open>$and\<close> behind two nil conjuncts, for every query kind.
\<close>

theorem unmatched_filter_wrapped:
  "EnforceRulesOnFilter inject rulesS1 (Some [(''name'', JStr ''x'')]) ''table1'' ''u2''
       ''logged_in'' (Some []) RuleQueryFind
     = Inr (Some [(''$and'',
         JArr [box (inject None (Some [])), box (inject None (Some [])),
               JObj [(''name'', JStr ''x'')]])])
   \<and> EnforceRulesOnFilter inject rulesS1 (Some [(''name'', JStr ''x'')]) ''table1'' ''u2''
       ''logged_in'' (Some []) RuleQueryUpdate
     = Inr (Some [(''$and'',
         JArr [box (inject None (Some [])), box (inject None (Some [])),
               JObj [(''name'', JStr ''x'')]])])"
  by (simp add: enforce_defs)

end
